theory Spec2Isabelle
  imports Main "HOL-Library.Sublist" "HOL-Library.Char_ord" "HOL-Library.List_Lexorder"
    "HOL-Library.Multiset"
begin

section \<open>Python string primitives used by the notebooks\<close>

text \<open>
  The notebooks only do string processing of their own: they name the reference file of
  each source file and, in the GeoTIFF study, read a time stamp back from that name.
  Everything else is a call into kerchunk, fsspec, dask or xarray. Calls whose result
  a file name depends on are parameters of the model, with \<open>LibraryError\<close> standing for
  whatever they raise.
\<close>

datatype error = ValueError | LibraryError

text \<open>
  \<^verbatim>\<open>s.split(sep)\<close> for a non-empty separator (the notebooks only split on the literals
  \<open>"/"\<close>, \<open>"_"\<close> and \<open>".json"\<close>): scan from the left, cut at every occurrence of \<open>sep\<close>
  and continue after it. \<open>cur\<close> is the piece being collected, in reverse. The result
  always has at least one element, so \<open>[0]\<close> and \<open>[-1]\<close> on it cannot raise.
\<close>

fun split_from :: "string \<Rightarrow> string \<Rightarrow> string \<Rightarrow> string list" where
  "split_from sep cur [] = [rev cur]"
| "split_from sep cur (c # cs) =
     (if prefix sep (c # cs)
      then rev cur # split_from sep [] (drop (length sep - 1) cs)
      else split_from sep (c # cur) cs)"

text \<open>
  \<^verbatim>\<open>s.strip(chars)\<close>: drop from the left while the character is one of \<open>chars\<close>,
  then the same from the right of what is left.
\<close>

definition py_strip :: "string \<Rightarrow> string \<Rightarrow> string" where
  "py_strip chars s =
     rev (dropWhile (\<lambda>c. c \<in> set chars) (rev (dropWhile (\<lambda>c. c \<in> set chars) s)))"

text \<open>\<^verbatim>\<open>fil.split("/")[-1]\<close>, which all three functions below start with.\<close>

definition basename :: "string \<Rightarrow> string" where
  "basename fil = last (split_from ''/'' [] fil)"

section \<open>NetCDF case study: \<open>generate_json_reference\<close>\<close>

text \<open>
  What a reference file on disk holds: nothing yet (opened with \<open>"wb"\<close>, never written),
  or the dumped references.
\<close>

datatype 'j ref_file = Empty | Json 'j

text \<open>
  \<^verbatim>\<open>
  def generate_json_reference(fil, output_dir: str):
      with fs_read.open(fil, **so) as infile:
          h5chunks = SingleHdf5ToZarr(infile, fil, inline_threshold=300)
          fname = fil.split("/")[-1].strip(".nc")
          outf = f"{output_dir}/{fname}.json"
          with open(outf, "wb") as f:
              f.write(ujson.dumps(h5chunks.translate()).encode())
          return outf
  \<close>
  Opening the source and building \<open>SingleHdf5ToZarr\<close> is the library call \<open>scan\<close>,
  \<open>h5chunks.translate()\<close> the library call \<open>translate\<close>; either may raise. The local
  directory is a map from path to file; \<open>output_dir\<close> is taken to exist and to be
  writable. \<open>open(outf, "wb")\<close> runs before \<open>translate\<close>, so a failing \<open>translate\<close>
  leaves an empty file behind.
\<close>

definition generate_json_reference_nc ::
  "(string \<Rightarrow> error + 'h) \<Rightarrow> ('h \<Rightarrow> error + 'j) \<Rightarrow> string \<Rightarrow> string \<Rightarrow>
   (string \<rightharpoonup> 'j ref_file) \<Rightarrow> (error + string) \<times> (string \<rightharpoonup> 'j ref_file)" where
  "generate_json_reference_nc scan translate fil output_dir disk =
     (case scan fil of
        Inl e \<Rightarrow> (Inl e, disk)
      | Inr h5chunks \<Rightarrow>
          (let fname = py_strip ''.nc'' (basename fil);
               outf = output_dir @ ''/'' @ fname @ ''.json''
           in case translate h5chunks of
                Inl e \<Rightarrow> (Inl e, disk(outf \<mapsto> Empty))
              | Inr refs \<Rightarrow> (Inr outf, disk(outf \<mapsto> Json refs))))"

section \<open>\<open>datetime.strptime\<close> with the format \<open>%Y%m%d%H%M\<close>\<close>

text \<open>
  \<open>fn_to_time\<close> calls \<^verbatim>\<open>datetime.datetime.strptime(subst, "%Y%m%d%H%M")\<close>. The standard
  library turns the format into the regular expression
  \<^verbatim>\<open>(?P<Y>\d\d\d\d)(?P<m>1[0-2]|0[1-9]|[1-9])(?P<d>3[0-1]|[1-2]\d|0[1-9]|[1-9]| [1-9])\<close>
  \<^verbatim>\<open>(?P<H>2[0-3]|[0-1]\d|\d)(?P<M>[0-5]\d|\d)\<close>,
  matches it at the start of the string with a backtracking matcher, raises ValueError when
  there is no match or when the match ends before the string does, converts the five
  groups with \<open>int\<close> and builds the \<open>datetime\<close>, which raises ValueError for year 0
  and for a day the month does not have. Among the characters of \<^typ>\<open>char\<close>, \<^verbatim>\<open>\d\<close>
  matches the ten digits \<open>0\<close> to \<open>9\<close> only.

  The regular expressions needed are built from character classes, sequence and
  alternative. \<open>rx_match g s\<close> lists what is left of \<open>s\<close> after each way of matching \<open>g\<close>
  at its start, in the order in which a backtracking matcher tries them: the first
  alternative first.
\<close>

datatype rx = Cls string | Seq rx rx | Alt rx rx

fun rx_match :: "rx \<Rightarrow> string \<Rightarrow> string list" where
  "rx_match (Cls cs) [] = []"
| "rx_match (Cls cs) (c # r) = (if c \<in> set cs then [r] else [])"
| "rx_match (Seq a b) s = concat (map (rx_match b) (rx_match a s))"
| "rx_match (Alt a b) s = rx_match a s @ rx_match b s"

text \<open>A named group: the text it matched, with what is left.\<close>

definition grp :: "rx \<Rightarrow> string \<Rightarrow> (string \<times> string) list" where
  "grp g s = map (\<lambda>r. (take (length s - length r) s, r)) (rx_match g s)"

abbreviation digit :: rx where
  "digit \<equiv> Cls ''0123456789''"

definition rx_Y :: rx where
  "rx_Y = Seq digit (Seq digit (Seq digit digit))"

definition rx_m :: rx where
  "rx_m = Alt (Seq (Cls ''1'') (Cls ''012''))
         (Alt (Seq (Cls ''0'') (Cls ''123456789''))
              (Cls ''123456789''))"

definition rx_d :: rx where
  "rx_d = Alt (Seq (Cls ''3'') (Cls ''01''))
         (Alt (Seq (Cls ''12'') digit)
         (Alt (Seq (Cls ''0'') (Cls ''123456789''))
         (Alt (Cls ''123456789'')
              (Seq (Cls '' '') (Cls ''123456789'')))))"

definition rx_H :: rx where
  "rx_H = Alt (Seq (Cls ''2'') (Cls ''0123'')) (Alt (Seq (Cls ''01'') digit) digit)"

definition rx_M :: rx where
  "rx_M = Alt (Seq (Cls ''012345'') digit) digit"

text \<open>
  All matches of the five groups in sequence, in the matcher's order; \<open>re.match\<close> returns
  the first one, whether or not it reaches the end of the string.
\<close>

definition re_match_YmdHM ::
  "string \<Rightarrow> ((string \<times> string \<times> string \<times> string \<times> string) \<times> string) list" where
  "re_match_YmdHM s =
     [((Y, m, d, H, M), r5).
        (Y, r1) \<leftarrow> grp rx_Y s, (m, r2) \<leftarrow> grp rx_m r1, (d, r3) \<leftarrow> grp rx_d r2,
        (H, r4) \<leftarrow> grp rx_H r3, (M, r5) \<leftarrow> grp rx_M r4]"

definition digit_val :: "char \<Rightarrow> nat" where
  "digit_val c = of_char c - of_char (CHR ''0'')"

text \<open>
  \<open>int\<close> of a group's text. A group holds decimal digits, after one blank in the last
  alternative of \<open>%d\<close>; \<open>int\<close> ignores the blank.
\<close>

definition py_int :: "string \<Rightarrow> nat" where
  "py_int s = foldl (\<lambda>n c. 10 * n + digit_val c) 0 (filter (\<lambda>c. c \<noteq> CHR '' '') s)"

text \<open>The \<open>datetime\<close> built; seconds and microseconds are 0 with this format.\<close>

record datetime =
  year :: nat
  month :: nat
  day :: nat
  hour :: nat
  minute :: nat

definition isleap :: "nat \<Rightarrow> bool" where
  "isleap y = (y mod 4 = 0 \<and> (y mod 100 \<noteq> 0 \<or> y mod 400 = 0))"

definition days_in_month :: "nat \<Rightarrow> nat \<Rightarrow> nat" where
  "days_in_month y m =
     (if m = 2 then (if isleap y then 29 else 28)
      else if m = 4 \<or> m = 6 \<or> m = 9 \<or> m = 11 then 30 else 31)"

definition strptime_YmdHM :: "string \<Rightarrow> error + datetime" where
  "strptime_YmdHM data_string =
     (case re_match_YmdHM data_string of
        [] \<Rightarrow> Inl ValueError
      | ((Y, m, d, H, M), rest) # _ \<Rightarrow>
          if rest \<noteq> [] then Inl ValueError
          else if py_int Y < 1 \<or> days_in_month (py_int Y) (py_int m) < py_int d
          then Inl ValueError
          else Inr \<lparr>year = py_int Y, month = py_int m, day = py_int d,
                    hour = py_int H, minute = py_int M\<rparr>)"

text \<open>
  Python orders two such \<open>datetime\<close>s by comparing year, month, day, hour and minute in
  turn, which is their order in time.
\<close>

definition dt_less :: "datetime \<Rightarrow> datetime \<Rightarrow> bool" where
  "dt_less a b =
     (year a < year b \<or> year a = year b \<and>
     (month a < month b \<or> month a = month b \<and>
     (day a < day b \<or> day a = day b \<and>
     (hour a < hour b \<or> hour a = hour b \<and> minute a < minute b))))"

section \<open>GeoTIFF case study\<close>

text \<open>
  \<^verbatim>\<open>
  def generate_json_reference(fil, output_dir: str):
      tiff_chunks = tiff_to_zarr(fil, remote_options={"protocol": "s3", "anon": True})
      fname = fil.split("/")[-1].split("_")[0]
      outf = f"{output_dir}/{fname}.json"
      with open(outf, "wb") as f:
          f.write(ujson.dumps(tiff_chunks).encode())
      return outf
  \<close>
  \<open>tiff_to_zarr\<close> is the library call; it runs before the file is opened.
\<close>

definition generate_json_reference_tiff ::
  "(string \<Rightarrow> error + 'j) \<Rightarrow> string \<Rightarrow> string \<Rightarrow>
   (string \<rightharpoonup> 'j ref_file) \<Rightarrow> (error + string) \<times> (string \<rightharpoonup> 'j ref_file)" where
  "generate_json_reference_tiff tiff_to_zarr fil output_dir disk =
     (case tiff_to_zarr fil of
        Inl e \<Rightarrow> (Inl e, disk)
      | Inr tiff_chunks \<Rightarrow>
          (let fname = hd (split_from ''_'' [] (basename fil));
               outf = output_dir @ ''/'' @ fname @ ''.json''
           in (Inr outf, disk(outf \<mapsto> Json tiff_chunks))))"

text \<open>
  \<^verbatim>\<open>
  tasks = [dask.delayed(generate_json_reference)(fil, temp_dir) for fil in file_pattern]
  dask.compute(tasks)
  \<close>
  The workers run the tasks in an order of their own. The list given here is the order
  in which the tasks write, some arrangement of \<open>file_pattern\<close>; a task that raises
  makes \<open>compute\<close> raise.
\<close>

fun dask_compute ::
  "(string \<Rightarrow> error + 'j) \<Rightarrow> string \<Rightarrow> string list \<Rightarrow>
   (string \<rightharpoonup> 'j ref_file) \<Rightarrow> error + (string \<rightharpoonup> 'j ref_file)" where
  "dask_compute tiff_to_zarr output_dir [] disk = Inr disk"
| "dask_compute tiff_to_zarr output_dir (fil # fils) disk =
     (case generate_json_reference_tiff tiff_to_zarr fil output_dir disk of
        (Inl e, _) \<Rightarrow> Inl e
      | (Inr _, disk') \<Rightarrow> dask_compute tiff_to_zarr output_dir fils disk')"

text \<open>
  \<^verbatim>\<open>ref_files = sorted(glob.iglob(f"{temp_dir}/*.json"))\<close>. \<open>glob_json temp_dir p\<close>
  says that the path \<open>p\<close> is one the pattern yields: a name directly in \<open>temp_dir\<close> that
  ends in \<open>.json\<close> and does not start with a dot. \<open>iglob\<close> yields the matching paths in
  the directory's order, which is not specified; \<open>sorted\<close> is \<^const>\<open>sort\<close> on strings,
  compared character by character.
\<close>

definition glob_json :: "string \<Rightarrow> string \<Rightarrow> bool" where
  "glob_json temp_dir p =
     (prefix (temp_dir @ ''/'') p \<and>
      (let name = drop (length temp_dir + 1) p
       in CHR ''/'' \<notin> set name \<and> suffix ''.json'' name \<and> \<not> prefix ''.'' name))"

text \<open>
  \<^verbatim>\<open>
  def fn_to_time(index, fs, var, fn):
      import datetime
      import re

      subst = fn.split("/")[-1].split(".json")[0]
      return datetime.datetime.strptime(subst, "%Y%m%d%H%M")
  \<close>
\<close>

definition fn_to_time :: "nat \<Rightarrow> 'fs \<Rightarrow> 'var \<Rightarrow> string \<Rightarrow> error + datetime" where
  "fn_to_time index fs var fn =
     (let subst = hd (split_from ''.json'' [] (basename fn))
      in strptime_YmdHM subst)"

text \<open>
  \<^verbatim>\<open>MultiZarrToZarr(path=ref_files, ..., coo_map={"time": fn_to_time}, ...)\<close>: the time
  coordinate of each reference file is what the rule returns for it, called with the
  file's position in the list and its path.
\<close>

definition derived_times :: "'fs \<Rightarrow> 'var \<Rightarrow> string list \<Rightarrow> (error + datetime) list" where
  "derived_times fs var ref_files =
     map (\<lambda>(index, fn). fn_to_time index fs var fn) (enumerate 0 ref_files)"

section \<open>Notions the properties are stated with\<close>

text \<open>The path \<open>generate_json_reference\<close> of the GeoTIFF study writes to.\<close>

definition outf_of :: "string \<Rightarrow> string \<Rightarrow> string" where
  "outf_of output_dir fil =
     output_dir @ ''/'' @ takeWhile (\<lambda>c. c \<noteq> CHR ''_'') (basename fil) @ ''.json''"

text \<open>A string with a given suffix removed, unchanged when it does not end with it.\<close>

definition removesuffix :: "string \<Rightarrow> string \<Rightarrow> string" where
  "removesuffix suf s = (if suffix suf s then take (length s - length suf) s else s)"

definition is_digit :: "char \<Rightarrow> bool" where
  "is_digit c = (c \<in> set ''0123456789'')"

text \<open>
  A fixed-width, zero-padded time stamp \<open>YYYYmmddHHMM\<close>: twelve digits whose fields,
  read at their fixed positions, are a date and a time of day.
\<close>

definition ts_fields :: "string \<Rightarrow> datetime" where
  "ts_fields s =
     \<lparr>year = py_int (take 4 s), month = py_int (take 2 (drop 4 s)),
      day = py_int (take 2 (drop 6 s)), hour = py_int (take 2 (drop 8 s)),
      minute = py_int (take 2 (drop 10 s))\<rparr>"

definition valid_ts :: "string \<Rightarrow> bool" where
  "valid_ts s =
     (length s = 12 \<and> list_all is_digit s \<and>
      1 \<le> year (ts_fields s) \<and>
      1 \<le> month (ts_fields s) \<and> month (ts_fields s) \<le> 12 \<and>
      1 \<le> day (ts_fields s) \<and>
      day (ts_fields s) \<le> days_in_month (year (ts_fields s)) (month (ts_fields s)) \<and>
      hour (ts_fields s) \<le> 23 \<and> minute (ts_fields s) \<le> 59)"




section \<open>Properties of the string primitives\<close>

lemma split_from_nonempty: "split_from sep cur s \<noteq> []"
  by (induction sep cur s rule: split_from.induct) auto

lemma split_from_absent:
  "\<not> sublist sep s \<Longrightarrow> split_from sep cur s = [rev cur @ s]"
proof (induction s arbitrary: cur)
  case Nil
  then show ?case by simp
next
  case (Cons c cs)
  from Cons.prems have np: "\<not> prefix sep (c # cs)"
    using prefix_imp_sublist by blast
  from Cons.prems have "\<not> sublist sep cs"
    by (auto simp: sublist_Cons_right)
  then have "split_from sep (c # cur) cs = [rev (c # cur) @ cs]"
    by (rule Cons.IH)
  with np show ?case by simp
qed

lemma split_from_first:
  assumes "sep \<noteq> []" and "\<not> sublist sep (a @ butlast sep)"
  shows "split_from sep cur (a @ sep @ r) = (rev cur @ a) # split_from sep [] r"
  using assms(2)
proof (induction a arbitrary: cur)
  case Nil
  obtain c cs where sep: "sep = c # cs" using assms(1) by (cases sep) auto
  then show ?case by simp
next
  case (Cons x a)
  have np: "\<not> prefix sep (x # a @ sep @ r)"
  proof
    assume p: "prefix sep (x # a @ sep @ r)"
    have "x # a @ sep @ r = ((x # a) @ butlast sep) @ (last sep # r)"
      using assms(1) by simp
    with p have "prefix sep (((x # a) @ butlast sep) @ (last sep # r))" by simp
    moreover have "length sep \<le> length ((x # a) @ butlast sep)" by simp
    ultimately have "prefix sep ((x # a) @ butlast sep)"
      by (metis prefix_append prefix_length_prefix prefix_order.order_refl append_prefixD prefixI)
    then show False using Cons.prems prefix_imp_sublist by blast
  qed
  from Cons.prems have "\<not> sublist sep (a @ butlast sep)"
    by (auto simp: sublist_Cons_right)
  then have "split_from sep (x # cur) (a @ sep @ r) = (rev (x # cur) @ a) # split_from sep [] r"
    by (rule Cons.IH)
  with np show ?case by simp
qed

lemma last_split_from_char:
  "c \<notin> set name \<Longrightarrow> last (split_from [c] cur (d @ c # name)) = name"
proof (induction d arbitrary: cur)
  case Nil
  have "\<not> sublist [c] name" using Nil by (auto simp: sublist_def)
  then have "split_from [c] [] name = [name]"
    using split_from_absent [of "[c]" name "[]"] by simp
  then show ?case by simp
next
  case (Cons x d)
  then show ?case by (auto simp: split_from_nonempty)
qed

lemma basename_absent: "CHR ''/'' \<notin> set name \<Longrightarrow> basename name = name"
proof -
  assume "CHR ''/'' \<notin> set name"
  then have "\<not> sublist ''/'' name" by (auto simp: sublist_def)
  then show ?thesis
    using split_from_absent [of "''/''" name "[]"] by (simp add: basename_def)
qed

lemma basename_path: "CHR ''/'' \<notin> set name \<Longrightarrow> basename (d @ ''/'' @ name) = name"
  using last_split_from_char [of "CHR ''/''" name "[]" d] by (simp add: basename_def)

lemma hd_split_from_char: "hd (split_from [c] cur s) = rev cur @ takeWhile (\<lambda>x. x \<noteq> c) s"
  by (induction s arbitrary: cur) auto

lemma json_no_overlap:
  assumes "\<not> sublist ''.json'' stem"
  shows "\<not> sublist ''.json'' (stem @ ''.jso'')"
proof
  assume "sublist ''.json'' (stem @ ''.jso'')"
  then consider "sublist ''.json'' stem" | "sublist ''.json'' ''.jso''"
    | xs1 xs2 where "''.json'' = xs1 @ xs2" "suffix xs1 stem" "prefix xs2 ''.jso''"
    unfolding sublist_append by blast
  then show False
  proof cases
    case 1
    then show ?thesis using assms by simp
  next
    case 2
    then have "length ''.json'' \<le> length ''.jso''" by (rule sublist_length_le)
    then show ?thesis by simp
  next
    case 3
    from 3(3) have "xs2 \<in> {[], ''.'', ''.j'', ''.js'', ''.jso''}"
      by (auto simp: prefix_Cons)
    with 3(1) have "xs2 = []" by auto
    with 3(1,2) assms show ?thesis using suffix_imp_sublist by auto
  qed
qed

lemma py_strip_decomp:
  "\<exists>pre post. s = pre @ py_strip chars s @ post \<and> set pre \<subseteq> set chars \<and> set post \<subseteq> set chars"
proof -
  let ?P = "\<lambda>c. c \<in> set chars"
  let ?m = "dropWhile ?P s"
  have a: "s = takeWhile ?P s @ ?m" by simp
  have "rev ?m = takeWhile ?P (rev ?m) @ dropWhile ?P (rev ?m)" by simp
  then have "?m = rev (dropWhile ?P (rev ?m)) @ rev (takeWhile ?P (rev ?m))"
    by (metis rev_append rev_rev_ident)
  then have b: "?m = py_strip chars s @ rev (takeWhile ?P (rev ?m))"
    by (simp add: py_strip_def)
  have c: "set (takeWhile ?P s) \<subseteq> set chars"
    by (auto dest: set_takeWhileD)
  have d: "set (rev (takeWhile ?P (rev ?m))) \<subseteq> set chars"
    by (auto dest: set_takeWhileD)
  from a b c d show ?thesis
    by metis
qed

lemma py_strip_hd: "py_strip chars s \<noteq> [] \<Longrightarrow> hd (py_strip chars s) \<notin> set chars"
proof -
  let ?P = "\<lambda>c. c \<in> set chars"
  let ?m = "dropWhile ?P s"
  assume ne: "py_strip chars s \<noteq> []"
  then have mne: "?m \<noteq> []" by (auto simp: py_strip_def dest: set_dropWhileD)
  then have h: "\<not> ?P (hd ?m)" by (rule hd_dropWhile)
  have "rev ?m = takeWhile ?P (rev ?m) @ dropWhile ?P (rev ?m)" by simp
  then have "?m = rev (dropWhile ?P (rev ?m)) @ rev (takeWhile ?P (rev ?m))"
    by (metis rev_append rev_rev_ident)
  then have "?m = py_strip chars s @ rev (takeWhile ?P (rev ?m))"
    by (simp add: py_strip_def)
  with ne have "hd ?m = hd (py_strip chars s)"
    by (metis hd_append2)
  with h show ?thesis by simp
qed

lemma py_strip_last: "py_strip chars s \<noteq> [] \<Longrightarrow> last (py_strip chars s) \<notin> set chars"
proof -
  let ?P = "\<lambda>c. c \<in> set chars"
  let ?r = "dropWhile ?P (rev (dropWhile ?P s))"
  assume ne: "py_strip chars s \<noteq> []"
  then have rne: "?r \<noteq> []" by (auto simp: py_strip_def)
  then have "\<not> ?P (hd ?r)" by (rule hd_dropWhile)
  moreover have "last (py_strip chars s) = hd ?r"
    using rne by (simp add: py_strip_def last_rev)
  ultimately show ?thesis by simp
qed



section \<open>What the regular expression of the format can match\<close>












section \<open>Fixed-width time stamps are accepted as they read\<close>

lemma digit_val_simps [simp]:
  "digit_val CHR ''0'' = 0" "digit_val CHR ''1'' = 1" "digit_val CHR ''2'' = 2"
  "digit_val CHR ''3'' = 3" "digit_val CHR ''4'' = 4" "digit_val CHR ''5'' = 5"
  "digit_val CHR ''6'' = 6" "digit_val CHR ''7'' = 7" "digit_val CHR ''8'' = 8"
  "digit_val CHR ''9'' = 9"
  by (simp_all add: digit_val_def)

lemma is_digit_cases:
  "is_digit c \<Longrightarrow> c = CHR ''0'' \<or> c = CHR ''1'' \<or> c = CHR ''2'' \<or> c = CHR ''3'' \<or> c = CHR ''4'' \<or>
     c = CHR ''5'' \<or> c = CHR ''6'' \<or> c = CHR ''7'' \<or> c = CHR ''8'' \<or> c = CHR ''9''"
  by (simp add: is_digit_def)

lemma py_int_2: "is_digit a \<Longrightarrow> is_digit b \<Longrightarrow> py_int [a, b] = 10 * digit_val a + digit_val b"
  by (auto simp: py_int_def is_digit_def)

lemma grp_Y:
  "is_digit a \<Longrightarrow> is_digit b \<Longrightarrow> is_digit c \<Longrightarrow> is_digit d \<Longrightarrow>
   grp rx_Y (a # b # c # d # r) = [([a, b, c, d], r)]"
  by (simp add: grp_def rx_Y_def is_digit_def)

lemma digit_val_le: "is_digit c \<Longrightarrow> digit_val c \<le> 9"
  by (auto dest: is_digit_cases)

lemma cls_digit:
  assumes "is_digit c"
  shows "rx_match (Cls ''0123456789'') (c # r) = [r]"
    and "rx_match (Cls ''123456789'') (c # r) = (if 1 \<le> digit_val c then [r] else [])"
    and "rx_match (Cls ''012345'') (c # r) = (if digit_val c \<le> 5 then [r] else [])"
    and "rx_match (Cls ''0123'') (c # r) = (if digit_val c \<le> 3 then [r] else [])"
    and "rx_match (Cls ''012'') (c # r) = (if digit_val c \<le> 2 then [r] else [])"
    and "rx_match (Cls ''01'') (c # r) = (if digit_val c \<le> 1 then [r] else [])"
    and "rx_match (Cls ''12'') (c # r) = (if 1 \<le> digit_val c \<and> digit_val c \<le> 2 then [r] else [])"
    and "rx_match (Cls ''0'') (c # r) = (if digit_val c = 0 then [r] else [])"
    and "rx_match (Cls ''1'') (c # r) = (if digit_val c = 1 then [r] else [])"
    and "rx_match (Cls ''2'') (c # r) = (if digit_val c = 2 then [r] else [])"
    and "rx_match (Cls ''3'') (c # r) = (if digit_val c = 3 then [r] else [])"
    and "rx_match (Cls '' '') (c # r) = []"
  using is_digit_cases [OF assms] by auto

lemma grp_m:
  assumes "is_digit a" "is_digit b" "1 \<le> py_int [a, b]" "py_int [a, b] \<le> 12"
  shows "\<exists>xs. grp rx_m (a # b # r) = ([a, b], r) # xs"
proof -
  from assms have "digit_val a = 1 \<and> digit_val b \<le> 2 \<or> digit_val a = 0 \<and> 1 \<le> digit_val b"
    by (simp add: py_int_2) arith
  then show ?thesis
    by (auto simp: rx_m_def grp_def cls_digit [OF assms(1)] cls_digit [OF assms(2)]
             simp del: rx_match.simps(2))
qed

lemma grp_d:
  assumes "is_digit a" "is_digit b" "1 \<le> py_int [a, b]" "py_int [a, b] \<le> 31"
  shows "\<exists>xs. grp rx_d (a # b # r) = ([a, b], r) # xs"
proof -
  from assms digit_val_le [OF assms(2)]
  have "digit_val a = 3 \<and> digit_val b \<le> 1 \<or> 1 \<le> digit_val a \<and> digit_val a \<le> 2 \<or>
        digit_val a = 0 \<and> 1 \<le> digit_val b"
    by (simp add: py_int_2) arith
  then show ?thesis
    by (auto simp: rx_d_def grp_def cls_digit [OF assms(1)] cls_digit [OF assms(2)]
             simp del: rx_match.simps(2))
qed

lemma grp_H:
  assumes "is_digit a" "is_digit b" "py_int [a, b] \<le> 23"
  shows "\<exists>xs. grp rx_H (a # b # r) = ([a, b], r) # xs"
proof -
  from assms digit_val_le [OF assms(2)]
  have "digit_val a = 2 \<and> digit_val b \<le> 3 \<or> digit_val a \<le> 1"
    by (simp add: py_int_2) arith
  then show ?thesis
    by (auto simp: rx_H_def grp_def cls_digit [OF assms(1)] cls_digit [OF assms(2)]
             simp del: rx_match.simps(2))
qed

lemma grp_M:
  assumes "is_digit a" "is_digit b" "py_int [a, b] \<le> 59"
  shows "\<exists>xs. grp rx_M (a # b # r) = ([a, b], r) # xs"
proof -
  from assms digit_val_le [OF assms(2)]
  have "digit_val a \<le> 5"
    by (simp add: py_int_2)
  then show ?thesis
    by (auto simp: rx_M_def grp_def cls_digit [OF assms(1)] cls_digit [OF assms(2)]
             simp del: rx_match.simps(2))
qed

lemma length_12:
  "length s = 12 \<Longrightarrow> \<exists>a1 a2 a3 a4 a5 a6 a7 a8 a9 a10 a11 a12.
     s = [a1, a2, a3, a4, a5, a6, a7, a8, a9, a10, a11, a12]"
  by (simp add: eval_nat_numeral length_Suc_conv) blast

lemma days_in_month_le: "days_in_month y m \<le> 31"
  by (simp add: days_in_month_def)

lemma strptime_valid:
  assumes "valid_ts s"
  shows "strptime_YmdHM s = Inr (ts_fields s)"
proof -
  from assms have "length s = 12" by (simp add: valid_ts_def)
  from length_12 [OF this] obtain y1 y2 y3 y4 m1 m2 d1 d2 h1 h2 n1 n2 where
    s: "s = [y1, y2, y3, y4, m1, m2, d1, d2, h1, h2, n1, n2]" by blast
  from assms have dg: "is_digit y1" "is_digit y2" "is_digit y3" "is_digit y4"
    "is_digit m1" "is_digit m2" "is_digit d1" "is_digit d2"
    "is_digit h1" "is_digit h2" "is_digit n1" "is_digit n2"
    by (simp_all add: valid_ts_def s)
  have f: "ts_fields s = \<lparr>year = py_int [y1, y2, y3, y4], month = py_int [m1, m2],
             day = py_int [d1, d2], hour = py_int [h1, h2], minute = py_int [n1, n2]\<rparr>"
    by (simp add: ts_fields_def s)
  from assms have v: "1 \<le> py_int [y1, y2, y3, y4]" "1 \<le> py_int [m1, m2]" "py_int [m1, m2] \<le> 12"
    "1 \<le> py_int [d1, d2]"
    "py_int [d1, d2] \<le> days_in_month (py_int [y1, y2, y3, y4]) (py_int [m1, m2])"
    "py_int [h1, h2] \<le> 23" "py_int [n1, n2] \<le> 59"
    unfolding valid_ts_def f by simp_all
  from v(5) have d31: "py_int [d1, d2] \<le> 31"
    using days_in_month_le le_trans by blast
  have gY: "grp rx_Y s = [([y1, y2, y3, y4], [m1, m2, d1, d2, h1, h2, n1, n2])]"
    unfolding s using dg(1-4) by (rule grp_Y)
  obtain xm where gm: "grp rx_m [m1, m2, d1, d2, h1, h2, n1, n2] =
      ([m1, m2], [d1, d2, h1, h2, n1, n2]) # xm"
    using grp_m [OF dg(5,6) v(2,3)] by blast
  obtain xd where gd: "grp rx_d [d1, d2, h1, h2, n1, n2] = ([d1, d2], [h1, h2, n1, n2]) # xd"
    using grp_d [OF dg(7,8) v(4) d31] by blast
  obtain xh where gh: "grp rx_H [h1, h2, n1, n2] = ([h1, h2], [n1, n2]) # xh"
    using grp_H [OF dg(9,10) v(6)] by blast
  obtain xn where gn: "grp rx_M [n1, n2] = ([n1, n2], []) # xn"
    using grp_M [OF dg(11,12) v(7)] by blast
  have "\<exists>rest. re_match_YmdHM s =
          (([y1, y2, y3, y4], [m1, m2], [d1, d2], [h1, h2], [n1, n2]), []) # rest"
    by (simp add: re_match_YmdHM_def gY gm gd gh gn)
  then obtain rest where "re_match_YmdHM s =
          (([y1, y2, y3, y4], [m1, m2], [d1, d2], [h1, h2], [n1, n2]), []) # rest" by blast
  then show ?thesis
    using v(1,5) by (simp add: strptime_YmdHM_def f not_less)
qed

section \<open>On fixed-width time stamps, string order is order in time\<close>

lemma lex_append:
  "length a = length a' \<Longrightarrow> (a @ b < a' @ b') = (a < a' \<or> a = a' \<and> b < b')"
  for a :: "'a::linorder list"
  by (induction a a' rule: list_induct2) auto

lemma lex_snoc:
  "length a = length a' \<Longrightarrow> (a @ [c] < a' @ [d]) = (a < a' \<or> a = a' \<and> c < d)"
  for a :: "'a::linorder list"
  by (simp add: lex_append)

lemma of_char_digit: "is_digit c \<Longrightarrow> of_char c = digit_val c + (48::nat)"
  by (auto dest: is_digit_cases simp: digit_val_def)

lemma digit_less: "is_digit c \<Longrightarrow> is_digit d \<Longrightarrow> (c < d) = (digit_val c < digit_val d)"
  by (simp add: less_char_def of_char_digit)

lemma digit_eq: "is_digit c \<Longrightarrow> is_digit d \<Longrightarrow> (c = d) = (digit_val c = digit_val d)"
  by (metis of_char_digit of_char_eq_iff)

lemma digit_not_space: "is_digit c \<Longrightarrow> c \<noteq> CHR '' ''"
  by (auto simp: is_digit_def)

lemma py_int_snoc:
  "list_all is_digit (s @ [c]) \<Longrightarrow> py_int (s @ [c]) = 10 * py_int s + digit_val c"
  by (simp add: py_int_def digit_not_space)

lemma py_int_order:
  "length s = length t \<Longrightarrow> list_all is_digit s \<Longrightarrow> list_all is_digit t \<Longrightarrow>
   (s < t) = (py_int s < py_int t) \<and> (s = t) = (py_int s = py_int t)"
proof (induction s arbitrary: t rule: rev_induct)
  case Nil
  then show ?case by simp
next
  case (snoc c s)
  from snoc.prems(1) obtain t' d where t: "t = t' @ [d]"
    by (cases t rule: rev_cases) auto
  from snoc.prems t have l: "length s = length t'" and ds: "list_all is_digit s"
    and dt: "list_all is_digit t'" and dc: "is_digit c" and dd: "is_digit d"
    by simp_all
  note ih = snoc.IH [OF l ds dt]
  have pc: "py_int (s @ [c]) = 10 * py_int s + digit_val c"
    using snoc.prems(2) by (rule py_int_snoc)
  have pd: "py_int (t' @ [d]) = 10 * py_int t' + digit_val d"
    using snoc.prems(3) unfolding t by (rule py_int_snoc)
  have b: "digit_val c \<le> 9" "digit_val d \<le> 9"
    using dc dd by (simp_all add: digit_val_le)
  have "(s @ [c] < t' @ [d]) = (py_int (s @ [c]) < py_int (t' @ [d]))"
    unfolding lex_snoc [OF l] pc pd using ih b digit_less [OF dc dd] by auto
  moreover have "(s @ [c] = t' @ [d]) = (py_int (s @ [c]) = py_int (t' @ [d]))"
    unfolding pc pd using ih b digit_eq [OF dc dd] by auto
  ultimately show ?case unfolding t by blast
qed

lemma valid_ts_order:
  assumes "valid_ts s" and "valid_ts t"
  shows "(s < t) = dt_less (ts_fields s) (ts_fields t)"
proof -
  let ?Y = "\<lambda>s::string. take 4 s" and ?m = "\<lambda>s::string. take 2 (drop 4 s)"
  and ?d = "\<lambda>s::string. take 2 (drop 6 s)" and ?H = "\<lambda>s::string. take 2 (drop 8 s)"
  and ?M = "\<lambda>s::string. take 2 (drop 10 s)"
  have dec: "u = ?Y u @ ?m u @ ?d u @ ?H u @ ?M u" if "length u = 12" for u :: string
  proof -
    from length_12 [OF that] obtain a1 a2 a3 a4 a5 a6 a7 a8 a9 a10 a11 a12 where
      "u = [a1, a2, a3, a4, a5, a6, a7, a8, a9, a10, a11, a12]" by blast
    then show ?thesis by simp
  qed
  from assms have ls: "length s = 12" and lt: "length t = 12"
    and ds: "list_all is_digit s" and dt: "list_all is_digit t"
    by (simp_all add: valid_ts_def)
  have dig: "list_all is_digit (take n (drop k u))" if "list_all is_digit u" for n k and u :: string
    using that by (auto simp: list_all_iff dest: in_set_takeD in_set_dropD)
  have dig0: "list_all is_digit (take n u)" if "list_all is_digit u" for n and u :: string
    using that by (auto simp: list_all_iff dest: in_set_takeD)
  have oY: "(?Y s < ?Y t) = (py_int (?Y s) < py_int (?Y t)) \<and> (?Y s = ?Y t) = (py_int (?Y s) = py_int (?Y t))"
    using ls lt by (intro py_int_order dig0 ds dt) simp
  have om: "(?m s < ?m t) = (py_int (?m s) < py_int (?m t)) \<and> (?m s = ?m t) = (py_int (?m s) = py_int (?m t))"
    using ls lt by (intro py_int_order dig ds dt) simp
  have od: "(?d s < ?d t) = (py_int (?d s) < py_int (?d t)) \<and> (?d s = ?d t) = (py_int (?d s) = py_int (?d t))"
    using ls lt by (intro py_int_order dig ds dt) simp
  have oH: "(?H s < ?H t) = (py_int (?H s) < py_int (?H t)) \<and> (?H s = ?H t) = (py_int (?H s) = py_int (?H t))"
    using ls lt by (intro py_int_order dig ds dt) simp
  have oM: "(?M s < ?M t) = (py_int (?M s) < py_int (?M t)) \<and> (?M s = ?M t) = (py_int (?M s) = py_int (?M t))"
    using ls lt by (intro py_int_order dig ds dt) simp
  have "(s < t) = (?Y s @ ?m s @ ?d s @ ?H s @ ?M s < ?Y t @ ?m t @ ?d t @ ?H t @ ?M t)"
    using dec [OF ls] dec [OF lt] by simp
  also have "\<dots> = (?Y s < ?Y t \<or> ?Y s = ?Y t \<and> (?m s < ?m t \<or> ?m s = ?m t \<and>
      (?d s < ?d t \<or> ?d s = ?d t \<and> (?H s < ?H t \<or> ?H s = ?H t \<and> ?M s < ?M t))))"
    using ls lt by (simp add: lex_append)
  also have "\<dots> = dt_less (ts_fields s) (ts_fields t)"
    unfolding dt_less_def ts_fields_def using oY om od oH oM by simp
  finally show ?thesis .
qed

section \<open>The reference files of the GeoTIFF study\<close>

lemma fn_to_time_stem:
  assumes "CHR ''/'' \<notin> set (stem @ ''.json'' @ rest)" and "\<not> sublist ''.json'' stem"
  shows "fn_to_time index fs var (dir @ ''/'' @ stem @ ''.json'' @ rest) = strptime_YmdHM stem"
proof -
  have b: "basename (dir @ ''/'' @ stem @ ''.json'' @ rest) = stem @ ''.json'' @ rest"
    using assms(1) by (rule basename_path)
  have "\<not> sublist ''.json'' (stem @ butlast ''.json'')"
    using json_no_overlap [OF assms(2)] by simp
  then have "split_from ''.json'' [] (stem @ ''.json'' @ rest) =
      (rev [] @ stem) # split_from ''.json'' [] rest"
    by (intro split_from_first) simp_all
  then have "hd (split_from ''.json'' [] (stem @ ''.json'' @ rest)) = stem" by simp
  with b show ?thesis by (simp add: fn_to_time_def)
qed

lemma digits_no_json: "list_all is_digit s \<Longrightarrow> \<not> sublist ''.json'' s"
proof
  assume d: "list_all is_digit s" and "sublist ''.json'' s"
  from this(2) have "set ''.json'' \<subseteq> set s" by (rule set_mono_sublist)
  then have "CHR ''.'' \<in> set s" by simp
  with d have "is_digit CHR ''.''" by (simp add: list_all_iff)
  then show False by (simp add: is_digit_def)
qed

lemma digits_no_slash: "list_all is_digit s \<Longrightarrow> CHR ''/'' \<notin> set s"
  by (auto simp: list_all_iff is_digit_def)

lemma generate_json_reference_tiff_ok:
  "tiff_to_zarr fil = Inr chunks \<Longrightarrow>
   generate_json_reference_tiff tiff_to_zarr fil output_dir disk =
     (Inr (outf_of output_dir fil), disk(outf_of output_dir fil \<mapsto> Json chunks))"
  by (simp add: generate_json_reference_tiff_def outf_of_def Let_def hd_split_from_char)

lemma generate_json_reference_tiff_err:
  "tiff_to_zarr fil = Inl e \<Longrightarrow>
   generate_json_reference_tiff tiff_to_zarr fil output_dir disk = (Inl e, disk)"
  by (simp add: generate_json_reference_tiff_def)

lemma dask_compute_dom:
  "dask_compute tiff_to_zarr output_dir fils disk = Inr disk' \<Longrightarrow>
   dom disk' = dom disk \<union> outf_of output_dir ` set fils"
proof (induction fils arbitrary: disk)
  case Nil
  then show ?case by simp
next
  case (Cons fil fils)
  show ?case
  proof (cases "tiff_to_zarr fil")
    case (Inl e)
    with Cons.prems show ?thesis
      by (simp add: generate_json_reference_tiff_err)
  next
    case (Inr chunks)
    with Cons.prems have
      "dask_compute tiff_to_zarr output_dir fils (disk(outf_of output_dir fil \<mapsto> Json chunks)) = Inr disk'"
      by (simp add: generate_json_reference_tiff_ok)
    from Cons.IH [OF this] show ?thesis by auto
  qed
qed

lemma glob_json_outf:
  assumes "valid_ts (takeWhile (\<lambda>c. c \<noteq> CHR ''_'') (basename fil))"
  shows "glob_json temp_dir (outf_of temp_dir fil)"
proof -
  let ?stem = "takeWhile (\<lambda>c. c \<noteq> CHR ''_'') (basename fil)"
  from assms have d: "list_all is_digit ?stem" and l: "length ?stem = 12"
    by (simp_all add: valid_ts_def)
  from l obtain c cs where c: "?stem = c # cs" by (cases ?stem) auto
  with d have "is_digit c" by simp
  then have "c \<noteq> CHR ''.''" by (auto simp: is_digit_def)
  then have np: "\<not> prefix ''.'' (?stem @ ''.json'')" unfolding c by simp
  have "outf_of temp_dir fil = (temp_dir @ ''/'') @ (?stem @ ''.json'')"
    by (simp add: outf_of_def)
  moreover have "CHR ''/'' \<notin> set (?stem @ ''.json'')"
    using digits_no_slash [OF d] by simp
  moreover have "suffix ''.json'' (?stem @ ''.json'')"
    by (rule suffixI) simp
  ultimately show ?thesis using np
    by (simp add: glob_json_def del: append_assoc)
qed

lemma fn_to_time_outf:
  assumes "valid_ts (takeWhile (\<lambda>c. c \<noteq> CHR ''_'') (basename fil))"
  shows "fn_to_time index fs var (outf_of temp_dir fil) =
           Inr (ts_fields (takeWhile (\<lambda>c. c \<noteq> CHR ''_'') (basename fil)))"
proof -
  let ?stem = "takeWhile (\<lambda>c. c \<noteq> CHR ''_'') (basename fil)"
  from assms have d: "list_all is_digit ?stem" by (simp add: valid_ts_def)
  have "CHR ''/'' \<notin> set (?stem @ ''.json'' @ [])"
    using digits_no_slash [OF d] by simp
  from fn_to_time_stem [OF this digits_no_json [OF d], of index fs var temp_dir]
  show ?thesis by (simp add: outf_of_def strptime_valid [OF assms])
qed

lemma map_enumerate_ignore:
  "(\<And>i x. x \<in> set xs \<Longrightarrow> f i x = h x) \<Longrightarrow>
   map (\<lambda>(i, x). f i x) (enumerate n xs) = map h xs"
  by (induction xs arbitrary: n) auto

lemma outf_of_less:
  assumes "length (takeWhile (\<lambda>c. c \<noteq> CHR ''_'') (basename f)) =
           length (takeWhile (\<lambda>c. c \<noteq> CHR ''_'') (basename g))"
  shows "(outf_of temp_dir f < outf_of temp_dir g) =
         (takeWhile (\<lambda>c. c \<noteq> CHR ''_'') (basename f) < takeWhile (\<lambda>c. c \<noteq> CHR ''_'') (basename g))"
proof -
  let ?a = "takeWhile (\<lambda>c. c \<noteq> CHR ''_'') (basename f)"
  let ?b = "takeWhile (\<lambda>c. c \<noteq> CHR ''_'') (basename g)"
  have "(outf_of temp_dir f < outf_of temp_dir g) =
        ((temp_dir @ ''/'') @ (?a @ ''.json'') < (temp_dir @ ''/'') @ (?b @ ''.json''))"
    by (simp add: outf_of_def)
  also have "\<dots> = (?a @ ''.json'' < ?b @ ''.json'')"
    by (subst lex_append) simp_all
  also have "\<dots> = (?a < ?b)"
    using assms by (subst lex_append) simp_all
  finally show ?thesis .
qed

lemma sort_enumeration_unique:
  "distinct l1 \<Longrightarrow> distinct l2 \<Longrightarrow> set l1 = set l2 \<Longrightarrow> sort l1 = sort l2"
  for l1 :: "'a::linorder list"
  by (rule sorted_distinct_set_unique) simp_all

text \<open>
  In the GeoTIFF study, the list handed to \<open>MultiZarrToZarr\<close> depends neither on the order
  in which the extraction tasks finished nor on the order in which the directory is
  listed.
\<close>

lemma ref_files_order_independent:
  assumes "mset c1 = mset c2"
    and "dask_compute tiff_to_zarr temp_dir c1 disk0 = Inr disk1"
    and "dask_compute tiff_to_zarr temp_dir c2 disk0 = Inr disk2"
    and "distinct l1" and "set l1 = {p \<in> dom disk1. glob_json temp_dir p}"
    and "distinct l2" and "set l2 = {p \<in> dom disk2. glob_json temp_dir p}"
  shows "sort l1 = sort l2"
proof -
  from assms(1) have "set c1 = set c2" by (rule mset_eq_setD)
  with dask_compute_dom [OF assms(2)] dask_compute_dom [OF assms(3)]
  have "dom disk1 = dom disk2" by simp
  with assms(5,7) have "set l1 = set l2" by simp
  with assms(4,6) show ?thesis by (rule sort_enumeration_unique)
qed

section \<open>The NetCDF wrapper names its output by \<open>strip(".nc")\<close>\<close>

text \<open>
  C8. When extraction succeeds, the reference file is written to
  \<open>output_dir/fname.json\<close> where \<open>fname\<close> is the source's base name with the
  characters \<open>.\<close>, \<open>n\<close> and \<open>c\<close> stripped from both ends: the base name is
  \<open>pre @ fname @ post\<close> with \<open>pre\<close> and \<open>post\<close> made of those three characters only,
  and \<open>fname\<close>, unless empty, neither starts nor ends with one of them. This is not the
  removal of the extension: \<open>ncdata.nc\<close> gives \<open>data\<close>, and the two distinct sources
  \<open>data.nc\<close> and \<open>ncdata.nc\<close> are written to the same path.
\<close>

theorem generate_json_reference_nc_strip:
  "(scan fil = Inr h5chunks \<and> translate h5chunks = Inr refs \<longrightarrow>
      (\<exists>fname pre post.
           generate_json_reference_nc scan translate fil output_dir disk =
             (Inr (output_dir @ ''/'' @ fname @ ''.json''),
              disk(output_dir @ ''/'' @ fname @ ''.json'' \<mapsto> Json refs)) \<and>
           basename fil = pre @ fname @ post \<and>
           set pre \<subseteq> {CHR ''.'', CHR ''n'', CHR ''c''} \<and>
           set post \<subseteq> {CHR ''.'', CHR ''n'', CHR ''c''} \<and>
           (fname = [] \<or>
            hd fname \<notin> {CHR ''.'', CHR ''n'', CHR ''c''} \<and>
            last fname \<notin> {CHR ''.'', CHR ''n'', CHR ''c''}))) \<and>
   fst (generate_json_reference_nc (\<lambda>_. Inr ()) (\<lambda>_. Inr r)
          ''s3://bucket/ncdata.nc'' ''/tmp/refs'' d) = Inr ''/tmp/refs/data.json'' \<and>
   removesuffix ''.nc'' (basename ''s3://bucket/ncdata.nc'') = ''ncdata'' \<and>
   fst (generate_json_reference_nc (\<lambda>_. Inr ()) (\<lambda>_. Inr r)
          ''s3://bucket/data.nc'' ''/tmp/refs'' d) =
   fst (generate_json_reference_nc (\<lambda>_. Inr ()) (\<lambda>_. Inr r)
          ''s3://bucket/ncdata.nc'' ''/tmp/refs'' d')"
proof (intro conjI impI)
  assume a: "scan fil = Inr h5chunks \<and> translate h5chunks = Inr refs"
  let ?fname = "py_strip ''.nc'' (basename fil)"
  obtain pre post where d: "basename fil = pre @ ?fname @ post"
    "set pre \<subseteq> set ''.nc''" "set post \<subseteq> set ''.nc''"
    using py_strip_decomp [of "basename fil" "''.nc''"] by blast
  have e: "?fname = [] \<or> hd ?fname \<notin> set ''.nc'' \<and> last ?fname \<notin> set ''.nc''"
    using py_strip_hd [of "''.nc''" "basename fil"] py_strip_last [of "''.nc''" "basename fil"]
    by blast
  have g: "generate_json_reference_nc scan translate fil output_dir disk =
             (Inr (output_dir @ ''/'' @ ?fname @ ''.json''),
              disk(output_dir @ ''/'' @ ?fname @ ''.json'' \<mapsto> Json refs))"
    using a by (simp add: generate_json_reference_nc_def Let_def)
  have s: "set ''.nc'' = {CHR ''.'', CHR ''n'', CHR ''c''}" by simp
  from g d e show "\<exists>fname pre post.
           generate_json_reference_nc scan translate fil output_dir disk =
             (Inr (output_dir @ ''/'' @ fname @ ''.json''),
              disk(output_dir @ ''/'' @ fname @ ''.json'' \<mapsto> Json refs)) \<and>
           basename fil = pre @ fname @ post \<and>
           set pre \<subseteq> {CHR ''.'', CHR ''n'', CHR ''c''} \<and>
           set post \<subseteq> {CHR ''.'', CHR ''n'', CHR ''c''} \<and>
           (fname = [] \<or>
            hd fname \<notin> {CHR ''.'', CHR ''n'', CHR ''c''} \<and>
            last fname \<notin> {CHR ''.'', CHR ''n'', CHR ''c''})"
    unfolding s by blast
next
  show "fst (generate_json_reference_nc (\<lambda>_. Inr ()) (\<lambda>_. Inr r)
          ''s3://bucket/ncdata.nc'' ''/tmp/refs'' d) = Inr ''/tmp/refs/data.json''"
    by (simp add: generate_json_reference_nc_def basename_def py_strip_def Let_def)
next
  show "removesuffix ''.nc'' (basename ''s3://bucket/ncdata.nc'') = ''ncdata''"
    by code_simp
next
  show "fst (generate_json_reference_nc (\<lambda>_. Inr ()) (\<lambda>_. Inr r)
          ''s3://bucket/data.nc'' ''/tmp/refs'' d) =
   fst (generate_json_reference_nc (\<lambda>_. Inr ()) (\<lambda>_. Inr r)
          ''s3://bucket/ncdata.nc'' ''/tmp/refs'' d')"
    by (simp add: generate_json_reference_nc_def basename_def py_strip_def Let_def)
qed

text \<open>
  The case study's own file only loses its extension; of \<open>cnn.nc\<close> nothing is left.
\<close>

theorem generate_json_reference_nc_strip_witness:
  "fst (generate_json_reference_nc (\<lambda>_. Inr ()) (\<lambda>_. Inr (0::nat))
          ''s3://smn-ar-wrf/DATA/WRF/DET/2022/12/31/12/WRFDETAR_01H_20221231_12_000.nc''
          ''/tmp/refs'' Map.empty) = Inr ''/tmp/refs/WRFDETAR_01H_20221231_12_000.json'' \<and>
   (\<exists>fname pre post.
           generate_json_reference_nc (\<lambda>_. Inr ()) (\<lambda>_. Inr (0::nat))
             ''s3://bucket/cnn.nc'' ''/tmp/refs'' Map.empty =
             (Inr (''/tmp/refs'' @ ''/'' @ fname @ ''.json''),
              Map.empty(''/tmp/refs'' @ ''/'' @ fname @ ''.json'' \<mapsto> Json 0)) \<and>
           basename ''s3://bucket/cnn.nc'' = pre @ fname @ post \<and>
           set pre \<subseteq> {CHR ''.'', CHR ''n'', CHR ''c''} \<and>
           set post \<subseteq> {CHR ''.'', CHR ''n'', CHR ''c''} \<and>
           (fname = [] \<or>
            hd fname \<notin> {CHR ''.'', CHR ''n'', CHR ''c''} \<and>
            last fname \<notin> {CHR ''.'', CHR ''n'', CHR ''c''}))"
proof
  show "fst (generate_json_reference_nc (\<lambda>_. Inr ()) (\<lambda>_. Inr (0::nat))
          ''s3://smn-ar-wrf/DATA/WRF/DET/2022/12/31/12/WRFDETAR_01H_20221231_12_000.nc''
          ''/tmp/refs'' Map.empty) = Inr ''/tmp/refs/WRFDETAR_01H_20221231_12_000.json''"
    by (simp add: generate_json_reference_nc_def basename_def py_strip_def Let_def)
next
  note inst = generate_json_reference_nc_strip
         [of "\<lambda>_. Inr ()" "''s3://bucket/cnn.nc''" "()" "\<lambda>_. Inr (0::nat)" 0
             "''/tmp/refs''" Map.empty]
  show "\<exists>fname pre post.
           generate_json_reference_nc (\<lambda>_. Inr ()) (\<lambda>_. Inr (0::nat))
             ''s3://bucket/cnn.nc'' ''/tmp/refs'' Map.empty =
             (Inr (''/tmp/refs'' @ ''/'' @ fname @ ''.json''),
              Map.empty(''/tmp/refs'' @ ''/'' @ fname @ ''.json'' \<mapsto> Json 0)) \<and>
           basename ''s3://bucket/cnn.nc'' = pre @ fname @ post \<and>
           set pre \<subseteq> {CHR ''.'', CHR ''n'', CHR ''c''} \<and>
           set post \<subseteq> {CHR ''.'', CHR ''n'', CHR ''c''} \<and>
           (fname = [] \<or>
            hd fname \<notin> {CHR ''.'', CHR ''n'', CHR ''c''} \<and>
            last fname \<notin> {CHR ''.'', CHR ''n'', CHR ''c''})"
    by (rule mp [OF conjunct1 [OF inst]]) simp
qed

section \<open>\<open>fn_to_time\<close> reads the time stamp before the first \<open>.json\<close>\<close>




section \<open>Sorting the reference files orders them in time\<close>

text \<open>
  C10. Let every source file's base name start, up to its first underscore, with a
  fixed-width zero-padded time stamp, no two of them the same, let the directory hold no
  \<open>.json\<close> file beforehand, and let all extraction tasks succeed, in whatever order.
  Then for every listing of the \<open>*.json\<close> files of the directory, the rule yields a
  time for each file of the sorted list, one per source file; a file's path is below
  another's exactly when its time is earlier; and so the times are strictly increasing.
\<close>

theorem sorted_ref_files_chronological:
  assumes v: "\<forall>fil \<in> set file_pattern. valid_ts (takeWhile (\<lambda>c. c \<noteq> CHR ''_'') (basename fil))"
    and dist: "distinct (map (\<lambda>fil. takeWhile (\<lambda>c. c \<noteq> CHR ''_'') (basename fil)) file_pattern)"
    and fresh: "\<forall>p \<in> dom disk0. \<not> glob_json temp_dir p"
    and ord: "mset completion = mset file_pattern"
    and run: "dask_compute tiff_to_zarr temp_dir completion disk0 = Inr disk"
    and ls: "distinct listing" "set listing = {p \<in> dom disk. glob_json temp_dir p}"
  shows "\<exists>ts. derived_times fs var (sort listing) = map Inr ts \<and>
              length ts = length file_pattern \<and>
              (\<forall>i < length ts. \<forall>j < length ts.
                 (sort listing ! i < sort listing ! j) = dt_less (ts ! i) (ts ! j)) \<and>
              sorted_wrt dt_less ts"
proof -
  let ?stem = "\<lambda>fil. takeWhile (\<lambda>c. c \<noteq> CHR ''_'') (basename fil)"
  define g where "g p = projr (fn_to_time 0 fs var p)" for p
  from ord have sc: "set completion = set file_pattern" by (rule mset_eq_setD)
  have "dom disk = dom disk0 \<union> outf_of temp_dir ` set file_pattern"
    using dask_compute_dom [OF run] sc by simp
  with ls(2) v fresh have sl: "set listing = outf_of temp_dir ` set file_pattern"
    by (auto intro: glob_json_outf)
  have gp: "g (outf_of temp_dir fil) = ts_fields (?stem fil)" if "fil \<in> set file_pattern" for fil
    using that v by (simp add: g_def fn_to_time_outf)
  have time: "fn_to_time i fs var p = Inr (g p)" if "p \<in> set (sort listing)" for i p
  proof -
    from that sl obtain fil where f: "fil \<in> set file_pattern" "p = outf_of temp_dir fil"
      by auto
    with v have "valid_ts (?stem fil)" by blast
    from fn_to_time_outf [OF this] gp [OF f(1)] show ?thesis unfolding f(2) by simp
  qed
  have dt: "derived_times fs var (sort listing) = map Inr (map g (sort listing))"
    unfolding derived_times_def map_map
    by (rule map_enumerate_ignore) (simp only: time comp_def)
  have coin: "(p < q) = dt_less (g p) (g q)"
    if "p \<in> set (sort listing)" "q \<in> set (sort listing)" for p q
  proof -
    from that sl obtain f1 f2 where f: "f1 \<in> set file_pattern" "p = outf_of temp_dir f1"
      "f2 \<in> set file_pattern" "q = outf_of temp_dir f2" by auto
    with v have vv: "valid_ts (?stem f1)" "valid_ts (?stem f2)" by blast+
    then have "length (?stem f1) = length (?stem f2)" by (simp add: valid_ts_def)
    from outf_of_less [OF this, of temp_dir] have "(p < q) = (?stem f1 < ?stem f2)"
      unfolding f .
    also have "\<dots> = dt_less (ts_fields (?stem f1)) (ts_fields (?stem f2))"
      using vv by (rule valid_ts_order)
    finally show ?thesis unfolding f using gp f(1,3) by simp
  qed
  have "sorted_wrt (<) (sort listing)"
    using ls(1) by (simp add: strict_sorted_iff)
  then have "sorted_wrt (\<lambda>p q. dt_less (g p) (g q)) (sort listing)"
    by (rule sorted_wrt_mono_rel [rotated]) (simp add: coin)
  then have srt: "sorted_wrt dt_less (map g (sort listing))"
    by (simp add: sorted_wrt_map)
  have inj: "inj_on (outf_of temp_dir) (set file_pattern)"
  proof (rule inj_onI)
    fix x y assume "x \<in> set file_pattern" "y \<in> set file_pattern"
      "outf_of temp_dir x = outf_of temp_dir y"
    then have "?stem x = ?stem y" by (simp add: outf_of_def)
    with dist \<open>x \<in> set file_pattern\<close> \<open>y \<in> set file_pattern\<close> show "x = y"
      by (auto simp: distinct_map dest: inj_onD)
  qed
  from dist have "distinct file_pattern" by (simp add: distinct_map)
  then have "length file_pattern = card (set file_pattern)" by (simp add: distinct_card)
  also have "\<dots> = card (set listing)" unfolding sl using inj by (simp add: card_image)
  also have "\<dots> = length listing" using ls(1) by (simp add: distinct_card)
  finally have len: "length (map g (sort listing)) = length file_pattern" by simp
  have nth: "(sort listing ! i < sort listing ! j) =
             dt_less (map g (sort listing) ! i) (map g (sort listing) ! j)"
    if "i < length (map g (sort listing))" "j < length (map g (sort listing))" for i j
  proof -
    from that have ij: "i < length (sort listing)" "j < length (sort listing)" by simp_all
    have "sort listing ! i \<in> set (sort listing)" using ij(1) by (rule nth_mem)
    moreover have "sort listing ! j \<in> set (sort listing)" using ij(2) by (rule nth_mem)
    ultimately have "(sort listing ! i < sort listing ! j) =
        dt_less (g (sort listing ! i)) (g (sort listing ! j))" by (rule coin)
    with ij show ?thesis by simp
  qed
  from dt len nth srt show ?thesis by blast
qed

text \<open>Two sources, extracted and listed in the reverse order.\<close>

theorem sorted_ref_files_chronological_witness:
  "valid_ts (takeWhile (\<lambda>c. c \<noteq> CHR ''_'') (basename ''s3://bucket/202301010000_FIN.tif'')) \<and>
   valid_ts (takeWhile (\<lambda>c. c \<noteq> CHR ''_'') (basename ''s3://bucket/202301010100_FIN.tif'')) \<and>
   distinct (map (\<lambda>fil. takeWhile (\<lambda>c. c \<noteq> CHR ''_'') (basename fil))
     [''s3://bucket/202301010000_FIN.tif'', ''s3://bucket/202301010100_FIN.tif'']) \<and>
   dom (Map.empty :: string \<rightharpoonup> unit ref_file) = {} \<and>
   mset [''s3://bucket/202301010100_FIN.tif'', ''s3://bucket/202301010000_FIN.tif''] =
     mset [''s3://bucket/202301010000_FIN.tif'', ''s3://bucket/202301010100_FIN.tif''] \<and>
   dask_compute (\<lambda>_. Inr ()) ''/tmp/refs''
     [''s3://bucket/202301010100_FIN.tif'', ''s3://bucket/202301010000_FIN.tif''] Map.empty =
     Inr [''/tmp/refs/202301010100.json'' \<mapsto> Json (), ''/tmp/refs/202301010000.json'' \<mapsto> Json ()] \<and>
   distinct [''/tmp/refs/202301010100.json'', ''/tmp/refs/202301010000.json''] \<and>
   set [''/tmp/refs/202301010100.json'', ''/tmp/refs/202301010000.json''] =
     {p \<in> dom [''/tmp/refs/202301010100.json'' \<mapsto> Json (), ''/tmp/refs/202301010000.json'' \<mapsto> Json ()].
        glob_json ''/tmp/refs'' p} \<and>
   (\<exists>ts. derived_times () ()
           (sort [''/tmp/refs/202301010100.json'', ''/tmp/refs/202301010000.json'']) = map Inr ts \<and>
         length ts = length [''s3://bucket/202301010000_FIN.tif'', ''s3://bucket/202301010100_FIN.tif''] \<and>
         (\<forall>i < length ts. \<forall>j < length ts.
            (sort [''/tmp/refs/202301010100.json'', ''/tmp/refs/202301010000.json''] ! i <
             sort [''/tmp/refs/202301010100.json'', ''/tmp/refs/202301010000.json''] ! j) =
            dt_less (ts ! i) (ts ! j)) \<and>
         sorted_wrt dt_less ts) \<and>
   derived_times () () (sort [''/tmp/refs/202301010100.json'', ''/tmp/refs/202301010000.json'']) =
     [Inr \<lparr>year = 2023, month = 1, day = 1, hour = 0, minute = 0\<rparr>,
      Inr \<lparr>year = 2023, month = 1, day = 1, hour = 1, minute = 0\<rparr>]"
proof -
  have v1: "valid_ts (takeWhile (\<lambda>c. c \<noteq> CHR ''_'') (basename ''s3://bucket/202301010000_FIN.tif''))"
    by code_simp
  have v2: "valid_ts (takeWhile (\<lambda>c. c \<noteq> CHR ''_'') (basename ''s3://bucket/202301010100_FIN.tif''))"
    by code_simp
  have v: "\<forall>fil \<in> set [''s3://bucket/202301010000_FIN.tif'', ''s3://bucket/202301010100_FIN.tif''].
             valid_ts (takeWhile (\<lambda>c. c \<noteq> CHR ''_'') (basename fil))"
    using v1 v2 by simp
  have di: "distinct (map (\<lambda>fil. takeWhile (\<lambda>c. c \<noteq> CHR ''_'') (basename fil))
     [''s3://bucket/202301010000_FIN.tif'', ''s3://bucket/202301010100_FIN.tif''])"
    by code_simp
  have fr0: "dom (Map.empty :: string \<rightharpoonup> unit ref_file) = {}"
    by simp
  have fr: "\<forall>p \<in> dom (Map.empty :: string \<rightharpoonup> unit ref_file). \<not> glob_json ''/tmp/refs'' p"
    by simp
  have ms: "mset [''s3://bucket/202301010100_FIN.tif'', ''s3://bucket/202301010000_FIN.tif''] =
     mset [''s3://bucket/202301010000_FIN.tif'', ''s3://bucket/202301010100_FIN.tif'']"
    by (simp add: add_mset_commute)
  have b1: "basename ''s3://bucket/202301010000_FIN.tif'' = ''202301010000_FIN.tif''"
    by code_simp
  have b2: "basename ''s3://bucket/202301010100_FIN.tif'' = ''202301010100_FIN.tif''"
    by code_simp
  have run: "dask_compute (\<lambda>_. Inr ()) ''/tmp/refs''
     [''s3://bucket/202301010100_FIN.tif'', ''s3://bucket/202301010000_FIN.tif''] Map.empty =
     Inr [''/tmp/refs/202301010100.json'' \<mapsto> Json (), ''/tmp/refs/202301010000.json'' \<mapsto> Json ()]"
    by (simp add: generate_json_reference_tiff_def Let_def hd_split_from_char b1 b2)
  have dl: "distinct [''/tmp/refs/202301010100.json'', ''/tmp/refs/202301010000.json'']"
    by simp
  have g1: "glob_json ''/tmp/refs'' ''/tmp/refs/202301010100.json''"
    by code_simp
  have g2: "glob_json ''/tmp/refs'' ''/tmp/refs/202301010000.json''"
    by code_simp
  have sl: "set [''/tmp/refs/202301010100.json'', ''/tmp/refs/202301010000.json''] =
     {p \<in> dom [''/tmp/refs/202301010100.json'' \<mapsto> Json (), ''/tmp/refs/202301010000.json'' \<mapsto> Json ()].
        glob_json ''/tmp/refs'' p}"
    using g1 g2 by auto
  have ev: "derived_times () ()
      (sort [''/tmp/refs/202301010100.json'', ''/tmp/refs/202301010000.json'']) =
     [Inr \<lparr>year = 2023, month = 1, day = 1, hour = 0, minute = 0\<rparr>,
      Inr \<lparr>year = 2023, month = 1, day = 1, hour = 1, minute = 0\<rparr>]"
    by code_simp
  note t = sorted_ref_files_chronological [OF v di fr ms run dl sl, of "()" "()"]
  from v1 v2 di fr0 ms run dl sl t ev show ?thesis by (intro conjI)
qed

end
